theory Spec2Isabelle
  imports Complex_Main "HOL-Library.Sublist"
begin

section \<open>Data model\<close>

text \<open>
  The source is a single React component (\<open>src/putiai/index.tsx\<close>).  Its state hooks
  (\<open>hasKey\<close>, \<open>queue\<close>, \<open>isProcessing\<close>, \<open>globalPrompt\<close>) are the fields of one
  record, every handler is a function on that record, and the asynchronous
  \<open>processQueue\<close> is cut at its \<open>await\<close> points into the steps of a transition
  system, so that the handlers of the user can run between two steps.
\<close>

datatype status = Idle | Processing | Success | Error

text \<open>A browser \<open>File\<close>: only its name and its declared media type are read.\<close>

record File =
  name :: string
  type_f :: string

text \<open>\<open>interface QueueItem\<close>; an optional field is an \<open>option\<close>.\<close>

record QueueItem =
  id_q :: string
  file_q :: File
  previewUrl :: string
  status :: status
  resultUrl :: "string option"
  customPrompt :: "string option"
  errorMsg :: "string option"

section \<open>Numbers and strings of the host language\<close>

text \<open>
  \<open>img.width\<close> and \<open>img.height\<close> are unsigned integers.  Their quotient is a
  number of the host language: a finite value, \<open>Infinity\<close> (a positive width over
  height zero) or \<open>NaN\<close> (zero over zero).  Finite values are taken exactly, as
  rationals; rounding of the quotient is not modelled.
\<close>

datatype jsnum = Fin rat | PosInf | NaN

definition js_div :: "nat \<Rightarrow> nat \<Rightarrow> jsnum" where
  "js_div w h =
     (if h = 0 then (if w = 0 then NaN else PosInf)
      else Fin (of_nat w / of_nat h))"

text \<open>\<open>Math.abs(v - r)\<close> for a finite \<open>v\<close>.\<close>

fun abs_diff :: "rat \<Rightarrow> jsnum \<Rightarrow> jsnum" where
  "abs_diff v (Fin x) = Fin \<bar>v - x\<bar>"
| "abs_diff v PosInf = PosInf"
| "abs_diff v NaN = NaN"

text \<open>\<open>a < b\<close> on the values above: every comparison with \<open>NaN\<close> is false.\<close>

fun js_less :: "jsnum \<Rightarrow> jsnum \<Rightarrow> bool" where
  "js_less (Fin x) (Fin y) = (x < y)"
| "js_less (Fin x) PosInf = True"
| "js_less _ _ = False"

text \<open>\<open>s.includes(sub)\<close>: \<open>sub\<close> occurs in \<open>s\<close> as a contiguous run.\<close>

fun includes_s :: "string \<Rightarrow> string \<Rightarrow> bool" where
  "includes_s [] sub = (sub = [])"
| "includes_s (c # cs) sub = (take (length sub) (c # cs) = sub \<or> includes_s cs sub)"

text \<open>
  \<open>xs.reduce(f)\<close> with no initial value: the first element starts the fold, and an
  empty array raises a \<open>TypeError\<close> (here \<open>None\<close>).
\<close>

fun reduce :: "('a \<Rightarrow> 'a \<Rightarrow> 'a) \<Rightarrow> 'a list \<Rightarrow> 'a option" where
  "reduce f [] = None"
| "reduce f (x # xs) = Some (foldl f x xs)"

section \<open>\<open>prepareImageForGenAI\<close>: the closest supported aspect ratio\<close>

record ratio =
  id_r :: string
  val :: rat

definition supported :: "ratio list" where
  "supported =
     [\<lparr>id_r = ''1:1'', val = 1\<rparr>,
      \<lparr>id_r = ''3:4'', val = 75 / 100\<rparr>,
      \<lparr>id_r = ''4:3'', val = 13333 / 10000\<rparr>,
      \<lparr>id_r = ''9:16'', val = 5625 / 10000\<rparr>,
      \<lparr>id_r = ''16:9'', val = 17778 / 10000\<rparr>]"

text \<open>The callback of \<open>reduce\<close>: the current entry wins only when strictly closer.\<close>

definition closer :: "jsnum \<Rightarrow> ratio \<Rightarrow> ratio \<Rightarrow> ratio" where
  "closer r prev cur =
     (if js_less (abs_diff (val cur) r) (abs_diff (val prev) r) then cur else prev)"

definition bestMatch :: "jsnum \<Rightarrow> ratio option" where
  "bestMatch r = reduce (closer r) supported"

text \<open>
  What the browser reports for the file: the reader fails, the image does not decode,
  or it loads with its data URL payload, width and height.
\<close>

datatype probe = ReadFailed | DecodeFailed | Loaded string nat nat

text \<open>
  A failure caught by \<open>catch (err: any)\<close> is read only through \<open>err.message\<close>,
  which is absent for the events that \<open>reader.onerror\<close> and \<open>img.onerror\<close> pass to
  \<open>reject\<close>.
\<close>

type_synonym failure = "string option"

definition prepareImageForGenAI :: "probe \<Rightarrow> failure + (string \<times> string)" where
  "prepareImageForGenAI p =
     (case p of
        ReadFailed \<Rightarrow> Inl None
      | DecodeFailed \<Rightarrow> Inl None
      | Loaded base64Data width height \<Rightarrow>
          (let ratio = js_div width height in
           case bestMatch ratio of
             None \<Rightarrow> Inl (Some ''Reduce of empty array with no initial value'')
           | Some m \<Rightarrow> Inr (base64Data, id_r m)))"

section \<open>The request\<close>

text \<open>\<open>a || b\<close> on strings: an absent or empty left operand gives the right one.\<close>

definition or_else :: "string option \<Rightarrow> string \<Rightarrow> string" where
  "or_else a b = (case a of None \<Rightarrow> b | Some s \<Rightarrow> if s = [] then b else s)"

definition finalPrompt :: "string \<Rightarrow> QueueItem \<Rightarrow> string" where
  "finalPrompt globalPrompt item =
     (let specificInstruction = or_else (customPrompt item) [] in
      globalPrompt @ '' '' @ specificInstruction)"

text \<open>The argument of \<open>ai.models.generateContent\<close>.\<close>

record request =
  model :: string
  data :: string
  mimeType :: string
  text_r :: string
  imageSize :: string
  aspectRatio :: string

definition buildRequest :: "string \<Rightarrow> QueueItem \<Rightarrow> string \<Rightarrow> string \<Rightarrow> request" where
  "buildRequest globalPrompt item base64 aspect =
     \<lparr>model = ''gemini-3-pro-image-preview'',
      data = base64,
      mimeType = or_else (Some (type_f (file_q item))) ''image/png'',
      text_r = finalPrompt globalPrompt item,
      imageSize = ''4K'',
      aspectRatio = aspect\<rparr>"

section \<open>The labels of the \<open>catch\<close> block\<close>

text \<open>
  The three user-facing labels are Chinese text in the source; they are given here
  as the bytes of their UTF-8 encoding: "generation failed", "safety limit
  triggered" and "requests too frequent, please wait".
\<close>

definition msg_failed :: string where
  "msg_failed =
     [CHR 0xE7, CHR 0x94, CHR 0x9F, CHR 0xE6, CHR 0x88, CHR 0x90,
      CHR 0xE5, CHR 0xA4, CHR 0xB1, CHR 0xE6, CHR 0x95, CHR 0x97]"

definition msg_safety :: string where
  "msg_safety =
     [CHR 0xE8, CHR 0xA7, CHR 0xB8, CHR 0xE7, CHR 0x99, CHR 0xBC,
      CHR 0xE5, CHR 0xAE, CHR 0x89, CHR 0xE5, CHR 0x85, CHR 0xA8,
      CHR 0xE9, CHR 0x99, CHR 0x90, CHR 0xE5, CHR 0x88, CHR 0xB6]"

definition msg_rate :: string where
  "msg_rate =
     [CHR 0xE8, CHR 0xAB, CHR 0x8B, CHR 0xE6, CHR 0xB1, CHR 0x82,
      CHR 0xE9, CHR 0x81, CHR 0x8E, CHR 0xE6, CHR 0x96, CHR 0xBC,
      CHR 0xE9, CHR 0xA0, CHR 0xBB, CHR 0xE7, CHR 0xB9, CHR 0x81,
      CHR 0xEF, CHR 0xBC, CHR 0x8C, CHR 0xE8, CHR 0xAB, CHR 0x8B,
      CHR 0xE7, CHR 0xA8, CHR 0x8D, CHR 0xE5, CHR 0x80, CHR 0x99]"

text \<open>\<open>err.message?.includes(sub)\<close>: an absent message is falsy.\<close>

definition message_includes :: "failure \<Rightarrow> string \<Rightarrow> bool" where
  "message_includes err sub = (case err of None \<Rightarrow> False | Some m \<Rightarrow> includes_s m sub)"

definition authRejected :: "failure \<Rightarrow> bool" where
  "authRejected err = message_includes err ''Requested entity was not found''"

text \<open>The variable \<open>errorMsg\<close> of the \<open>catch\<close> block after its two assignments.\<close>

definition errorMsgOf :: "failure \<Rightarrow> string" where
  "errorMsgOf err =
     (let errorMsg = msg_failed;
          errorMsg = (if message_includes err ''Safety'' then msg_safety else errorMsg);
          errorMsg = (if message_includes err ''429'' then msg_rate else errorMsg)
      in errorMsg)"

section \<open>The component state and its handlers\<close>

text \<open>
  A call of the asynchronous \<open>processQueue\<close> that has not returned yet is a
  \<open>run\<close>: the \<open>globalPrompt\<close> its closure captured, the items of \<open>pendingItems\<close>
  the \<open>for\<close> loop has not reached yet, and the point where it is suspended.
\<close>

datatype pc =
    LoopHead
  | AwaitPrepare QueueItem
  | AwaitGenerate QueueItem request
  | Returned

record run =
  prompt :: string
  rest :: "QueueItem list"
  pc :: pc

record App =
  hasKey :: bool
  queue :: "QueueItem list"
  isProcessing :: bool
  globalPrompt :: string
  runs :: "run list"

definition initial :: App where
  "initial =
     \<lparr>hasKey = False, queue = [], isProcessing = False,
      globalPrompt = ''Keep the exact composition and background. Replace the text with the following Traditional Chinese text. Ensure typography is sharp, high-definition, and legible: '',
      runs = []\<rparr>"

text \<open>
  \<open>handleFiles\<close>: each file comes with the identifier \<open>Math.random\<close> gave it and
  the URL \<open>URL.createObjectURL\<close> gave it.
\<close>

definition handleFiles :: "(string \<times> File \<times> string) list option \<Rightarrow> App \<Rightarrow> App" where
  "handleFiles files s =
     (case files of
        None \<Rightarrow> s
      | Some fs \<Rightarrow>
          (let newItems =
             map (\<lambda>(i, f, u).
                    \<lparr>id_q = i, file_q = f, previewUrl = u, status = Idle,
                     resultUrl = None, customPrompt = None, errorMsg = None\<rparr>) fs
           in s\<lparr>queue := queue s @ newItems\<rparr>))"

definition removeItem :: "string \<Rightarrow> App \<Rightarrow> App" where
  "removeItem i s = s\<lparr>queue := filter (\<lambda>item. id_q item \<noteq> i) (queue s)\<rparr>"

definition updateItemPrompt :: "string \<Rightarrow> string \<Rightarrow> App \<Rightarrow> App" where
  "updateItemPrompt i p s =
     s\<lparr>queue := map (\<lambda>item. if id_q item = i then item\<lparr>customPrompt := Some p\<rparr> else item)
                    (queue s)\<rparr>"

definition cancelProcessing :: "App \<Rightarrow> App" where
  "cancelProcessing s = s\<lparr>isProcessing := False\<rparr>"

section \<open>\<open>processQueue\<close>\<close>

text \<open>The three functional updates of the queue inside the loop.\<close>

definition markProcessing :: "string \<Rightarrow> QueueItem list \<Rightarrow> QueueItem list" where
  "markProcessing i q =
     map (\<lambda>x. if id_q x = i then x\<lparr>status := Processing, errorMsg := None\<rparr> else x) q"

definition markSuccess :: "string \<Rightarrow> string \<Rightarrow> QueueItem list \<Rightarrow> QueueItem list" where
  "markSuccess i imageUrl q =
     map (\<lambda>x. if id_q x = i then x\<lparr>status := Success, resultUrl := Some imageUrl\<rparr> else x) q"

definition markError :: "string \<Rightarrow> string \<Rightarrow> QueueItem list \<Rightarrow> QueueItem list" where
  "markError i msg q =
     map (\<lambda>x. if id_q x = i then x\<lparr>status := Error, errorMsg := Some msg\<rparr> else x) q"

text \<open>
  The call itself, up to its first \<open>await\<close>: nothing when \<open>isProcessing\<close> is set,
  otherwise the flag is set and \<open>pendingItems\<close> is filtered from the queue.
\<close>

definition processQueue :: "App \<Rightarrow> App" where
  "processQueue s =
     (if isProcessing s then s
      else s\<lparr>isProcessing := True,
             runs := runs s @
               [\<lparr>prompt = globalPrompt s,
                 rest = filter (\<lambda>item. status item = Idle \<or> status item = Error) (queue s),
                 pc = LoopHead\<rparr>]\<rparr>)"

text \<open>
  The head of the loop for run \<open>k\<close>: the loop ends, or the next item is looked up in
  the current queue and skipped when it is gone, or it is marked and the run waits
  for \<open>prepareImageForGenAI\<close>.
\<close>

definition iterate :: "nat \<Rightarrow> App \<Rightarrow> App" where
  "iterate k s =
     (let r = runs s ! k in
      case rest r of
        [] \<Rightarrow> s\<lparr>isProcessing := False, runs := (runs s)[k := r\<lparr>pc := Returned\<rparr>]\<rparr>
      | item # later \<Rightarrow>
          (case find (\<lambda>i. id_q i = id_q item) (queue s) of
             None \<Rightarrow> s\<lparr>runs := (runs s)[k := r\<lparr>rest := later\<rparr>]\<rparr>
           | Some _ \<Rightarrow>
               s\<lparr>queue := markProcessing (id_q item) (queue s),
                 runs := (runs s)[k := r\<lparr>rest := later, pc := AwaitPrepare item\<rparr>]\<rparr>))"

text \<open>The \<open>catch\<close> block for the item in flight.\<close>

definition catchBlock :: "nat \<Rightarrow> QueueItem \<Rightarrow> failure \<Rightarrow> App \<Rightarrow> App" where
  "catchBlock k item err s =
     (if authRejected err
      then s\<lparr>hasKey := False, isProcessing := False,
             runs := (runs s)[k := (runs s ! k)\<lparr>pc := Returned\<rparr>]\<rparr>
      else s\<lparr>queue := markError (id_q item) (errorMsgOf err) (queue s),
             runs := (runs s)[k := (runs s ! k)\<lparr>pc := LoopHead\<rparr>]\<rparr>)"

text \<open>
  The response is read only through \<open>candidates?.[0]?.content?.parts\<close>: absent, or
  a list of parts of which each has \<open>inlineData\<close> or not.  The first part that has
  it gives the image.
\<close>

type_synonym response = "string option list option"

fun firstInline :: "string option list \<Rightarrow> string option" where
  "firstInline [] = None"
| "firstInline (part # parts) =
     (case part of
        Some d \<Rightarrow> Some (''data:image/png;base64,'' @ d)
      | None \<Rightarrow> firstInline parts)"

definition extractImage :: "response \<Rightarrow> string option" where
  "extractImage resp = (case resp of None \<Rightarrow> None | Some parts \<Rightarrow> firstInline parts)"

datatype api_result = Rejected failure | Resolved response

definition prepared :: "nat \<Rightarrow> probe \<Rightarrow> App \<Rightarrow> App" where
  "prepared k p s =
     (let r = runs s ! k in
      case pc r of
        AwaitPrepare item \<Rightarrow>
          (case prepareImageForGenAI p of
             Inl err \<Rightarrow> catchBlock k item err s
           | Inr (base64, aspect) \<Rightarrow>
               s\<lparr>runs := (runs s)[k := r\<lparr>pc := AwaitGenerate item
                                               (buildRequest (prompt r) item base64 aspect)\<rparr>]\<rparr>)
      | _ \<Rightarrow> s)"

definition generated :: "nat \<Rightarrow> api_result \<Rightarrow> App \<Rightarrow> App" where
  "generated k res s =
     (let r = runs s ! k in
      case pc r of
        AwaitGenerate item req \<Rightarrow>
          (case res of
             Rejected err \<Rightarrow> catchBlock k item err s
           | Resolved resp \<Rightarrow>
               (case extractImage resp of
                  Some imageUrl \<Rightarrow>
                    s\<lparr>queue := markSuccess (id_q item) imageUrl (queue s),
                      runs := (runs s)[k := r\<lparr>pc := LoopHead\<rparr>]\<rparr>
                | None \<Rightarrow> catchBlock k item (Some ''No image generated.'') s))
      | _ \<Rightarrow> s)"

section \<open>Events\<close>

text \<open>
  An event is a handler called by the user interface or the timer, or the resumption
  of run \<open>k\<close> at the \<open>await\<close> it is suspended at, with what the awaited promise
  settled to.  A resumption that does not fit the point where the run is suspended
  does nothing.
\<close>

datatype event =
    HandleFiles "(string \<times> File \<times> string) list option"
  | RemoveItem string
  | UpdateItemPrompt string string
  | SetGlobalPrompt string
  | ClearQueue
  | CancelProcessing
  | CheckKey bool
  | ProcessQueue
  | Iterate nat
  | Prepared nat probe
  | Generated nat api_result

fun step :: "event \<Rightarrow> App \<Rightarrow> App" where
  "step (HandleFiles files) s = handleFiles files s"
| "step (RemoveItem i) s = removeItem i s"
| "step (UpdateItemPrompt i p) s = updateItemPrompt i p s"
| "step (SetGlobalPrompt p) s = s\<lparr>globalPrompt := p\<rparr>"
| "step ClearQueue s = s\<lparr>queue := []\<rparr>"
| "step CancelProcessing s = cancelProcessing s"
| "step (CheckKey selected) s = s\<lparr>hasKey := selected\<rparr>"
| "step ProcessQueue s = processQueue s"
| "step (Iterate k) s =
     (if k < length (runs s) \<and> pc (runs s ! k) = LoopHead then iterate k s else s)"
| "step (Prepared k p) s = (if k < length (runs s) then prepared k p s else s)"
| "step (Generated k res) s = (if k < length (runs s) then generated k res s else s)"

fun exec :: "event list \<Rightarrow> App \<Rightarrow> App" where
  "exec [] s = s"
| "exec (e # es) s = exec es (step e s)"

section \<open>Concrete inputs\<close>

text \<open>Two uploaded files, used where a statement is instantiated.\<close>

definition png :: File where
  "png = \<lparr>name = ''a.png'', type_f = ''image/png''\<rparr>"

definition upload2 :: event where
  "upload2 = HandleFiles (Some [(''a'', png, ''blob:a''), (''b'', png, ''blob:b'')])"

definition upload3 :: event where
  "upload3 =
     HandleFiles (Some [(''a'', png, ''blob:a''), (''b'', png, ''blob:b''), (''c'', png, ''blob:c'')])"

text \<open>An image that loads, a response that carries an image, and the rejection of the key.\<close>

definition loadedProbe :: probe where
  "loadedProbe = Loaded ''AAAA'' 4 3"

definition imageResponse :: api_result where
  "imageResponse = Resolved (Some [Some ''QUJD''])"

definition authFailure :: api_result where
  "authFailure = Rejected (Some ''Requested entity was not found.'')"

section \<open>What a run still has to work on\<close>

text \<open>
  The work of a run: the item whose request is in flight, if any, and the items the
  loop has not reached.  An item is untouched when no run has ever marked it.  The
  identifiers known to a state are those of its queue and of the work of its runs.
\<close>

fun inFlight :: "pc \<Rightarrow> QueueItem list" where
  "inFlight (AwaitPrepare item) = [item]"
| "inFlight (AwaitGenerate item req) = [item]"
| "inFlight LoopHead = []"
| "inFlight Returned = []"

definition workItems :: "run \<Rightarrow> QueueItem list" where
  "workItems r = inFlight (pc r) @ rest r"

definition untouched :: "QueueItem \<Rightarrow> bool" where
  "untouched x = (status x = Idle \<and> resultUrl x = None \<and> errorMsg x = None)"

definition known :: "App \<Rightarrow> string set" where
  "known s = id_q ` set (queue s) \<union> (\<Union>r \<in> set (runs s). id_q ` set (workItems r))"

text \<open>
  The runs of a state are confined to a set of identifiers when all their work lies
  in it and every queue entry outside it is untouched.
\<close>

definition confined :: "string set \<Rightarrow> App \<Rightarrow> bool" where
  "confined I s =
     ((\<forall>r \<in> set (runs s). id_q ` set (workItems r) \<subseteq> I) \<and>
      (\<forall>x \<in> set (queue s). id_q x \<notin> I \<longrightarrow> untouched x))"

section \<open>The closest supported aspect ratio\<close>

lemma foldl_closer_mem: "foldl (closer r) x xs \<in> set (x # xs)"
  by (induction xs rule: rev_induct) (auto simp: closer_def)

lemma foldl_closer_PosInf: "foldl (closer PosInf) x xs = x"
  by (induction xs rule: rev_induct) (auto simp: closer_def)

lemma foldl_closer_NaN: "foldl (closer NaN) x xs = x"
  by (induction xs rule: rev_induct) (auto simp: closer_def)

text \<open>
  The fold keeps the first entry of least distance: it is no farther than any entry,
  and strictly closer than every entry before it.
\<close>

lemma foldl_closer_first_min:
  "\<exists>k < length (x # xs).
     foldl (closer (Fin r)) x xs = (x # xs) ! k \<and>
     (\<forall>j < length (x # xs). \<bar>val ((x # xs) ! k) - r\<bar> \<le> \<bar>val ((x # xs) ! j) - r\<bar>) \<and>
     (\<forall>j < k. \<bar>val ((x # xs) ! k) - r\<bar> < \<bar>val ((x # xs) ! j) - r\<bar>)"
proof (induction xs rule: rev_induct)
  case Nil
  show ?case by simp
next
  case (snoc y ys)
  define zs where "zs = x # ys"
  define d where "d = (\<lambda>e::ratio. \<bar>val e - r\<bar>)"
  from snoc obtain k where k: "k < length zs" "foldl (closer (Fin r)) x ys = zs ! k"
    and kmin: "\<forall>j < length zs. d (zs ! k) \<le> d (zs ! j)"
    and kfirst: "\<forall>j < k. d (zs ! k) < d (zs ! j)"
    unfolding zs_def d_def by blast
  have app: "x # (ys @ [y]) = zs @ [y]" by (simp add: zs_def)
  have step: "foldl (closer (Fin r)) x (ys @ [y]) = (if d y < d (zs ! k) then y else zs ! k)"
    using k(2) by (simp add: closer_def d_def)
  have goal: "\<exists>m < length (zs @ [y]).
     (if d y < d (zs ! k) then y else zs ! k) = (zs @ [y]) ! m \<and>
     (\<forall>j < length (zs @ [y]). d ((zs @ [y]) ! m) \<le> d ((zs @ [y]) ! j)) \<and>
     (\<forall>j < m. d ((zs @ [y]) ! m) < d ((zs @ [y]) ! j))"
  proof (cases "d y < d (zs ! k)")
    case True
    have "\<forall>j < length (zs @ [y]). d y \<le> d ((zs @ [y]) ! j)"
    proof (intro allI impI)
      fix j assume "j < length (zs @ [y])"
      then consider "j < length zs" | "j = length zs" by force
      then show "d y \<le> d ((zs @ [y]) ! j)"
      proof cases
        case 1
        then have "d (zs ! k) \<le> d (zs ! j)" using kmin by blast
        with True 1 show ?thesis by (simp add: nth_append)
      next
        case 2
        then show ?thesis by simp
      qed
    qed
    moreover have "\<forall>j < length zs. d y < d ((zs @ [y]) ! j)"
    proof (intro allI impI)
      fix j assume j: "j < length zs"
      then have "d (zs ! k) \<le> d (zs ! j)" using kmin by blast
      with True j show "d y < d ((zs @ [y]) ! j)"
        by (simp add: nth_append)
    qed
    ultimately show ?thesis
      using True by (intro exI[of _ "length zs"]) simp
  next
    case False
    have "\<forall>j < length (zs @ [y]). d (zs ! k) \<le> d ((zs @ [y]) ! j)"
    proof (intro allI impI)
      fix j assume "j < length (zs @ [y])"
      then consider "j < length zs" | "j = length zs" by force
      then show "d (zs ! k) \<le> d ((zs @ [y]) ! j)"
      proof cases
        case 1
        then show ?thesis using kmin by (simp add: nth_append)
      next
        case 2
        then show ?thesis using False by simp
      qed
    qed
    moreover have "\<forall>j < k. d (zs ! k) < d ((zs @ [y]) ! j)"
      using kfirst k(1) by (simp add: nth_append)
    ultimately show ?thesis
      using False k(1) by (intro exI[of _ k]) (simp add: nth_append)
  qed
  show ?case
    unfolding app step using goal unfolding d_def .
qed

lemma bestMatch_Fin:
  "\<exists>k < length supported.
     bestMatch (Fin r) = Some (supported ! k) \<and>
     (\<forall>j < length supported. \<bar>val (supported ! k) - r\<bar> \<le> \<bar>val (supported ! j) - r\<bar>) \<and>
     (\<forall>j < k. \<bar>val (supported ! k) - r\<bar> < \<bar>val (supported ! j) - r\<bar>)"
proof -
  obtain x xs where s: "supported = x # xs" by (simp add: supported_def)
  show ?thesis unfolding bestMatch_def s reduce.simps
    using foldl_closer_first_min[of x xs r] by blast
qed

text \<open>
  Claim C3.  For a positive width and height the label returned is that of the entry
  of \<open>supported\<close> whose value is nearest to width / height, and among entries at the
  same distance the one declared first; (1000, 1000) gives "1:1", (1920, 1080) gives
  "16:9", (1080, 1920) gives "9:16" and (800, 600) gives "4:3".
\<close>

theorem aspect_ratio_closest:
  assumes "0 < w" and "0 < h"
  shows "(\<exists>k < length supported.
            prepareImageForGenAI (Loaded b w h) = Inr (b, id_r (supported ! k)) \<and>
            (\<forall>j < length supported.
               \<bar>val (supported ! k) - of_nat w / of_nat h\<bar>
                 \<le> \<bar>val (supported ! j) - of_nat w / of_nat h\<bar>) \<and>
            (\<forall>j < k.
               \<bar>val (supported ! k) - of_nat w / of_nat h\<bar>
                 < \<bar>val (supported ! j) - of_nat w / of_nat h\<bar>))
       \<and> map id_r supported = [''1:1'', ''3:4'', ''4:3'', ''9:16'', ''16:9'']
       \<and> map val supported = [1, 75 / 100, 13333 / 10000, 5625 / 10000, 17778 / 10000]
       \<and> prepareImageForGenAI (Loaded b 1000 1000) = Inr (b, ''1:1'')
       \<and> prepareImageForGenAI (Loaded b 1920 1080) = Inr (b, ''16:9'')
       \<and> prepareImageForGenAI (Loaded b 1080 1920) = Inr (b, ''9:16'')
       \<and> prepareImageForGenAI (Loaded b 800 600) = Inr (b, ''4:3'')"
proof -
  let ?r = "of_nat w / of_nat h :: rat"
  have r: "js_div w h = Fin ?r" using assms by (simp add: js_div_def)
  from bestMatch_Fin [of ?r] obtain k where
    "k < length supported" "bestMatch (Fin ?r) = Some (supported ! k)"
    "\<forall>j < length supported. \<bar>val (supported ! k) - ?r\<bar> \<le> \<bar>val (supported ! j) - ?r\<bar>"
    "\<forall>j < k. \<bar>val (supported ! k) - ?r\<bar> < \<bar>val (supported ! j) - ?r\<bar>"
    by blast
  then have nearest: "\<exists>k < length supported.
            prepareImageForGenAI (Loaded b w h) = Inr (b, id_r (supported ! k)) \<and>
            (\<forall>j < length supported. \<bar>val (supported ! k) - ?r\<bar> \<le> \<bar>val (supported ! j) - ?r\<bar>) \<and>
            (\<forall>j < k. \<bar>val (supported ! k) - ?r\<bar> < \<bar>val (supported ! j) - ?r\<bar>)"
    by (intro exI [of _ k]) (simp add: prepareImageForGenAI_def r)
  have tbl: "map id_r supported = [''1:1'', ''3:4'', ''4:3'', ''9:16'', ''16:9'']"
    "map val supported = [1, 75 / 100, 13333 / 10000, 5625 / 10000, 17778 / 10000]"
    by (simp_all add: supported_def)
  have e1: "prepareImageForGenAI (Loaded b 1000 1000) = Inr (b, ''1:1'')"
    by (simp add: prepareImageForGenAI_def js_div_def bestMatch_def supported_def closer_def)
  have e2: "prepareImageForGenAI (Loaded b 1920 1080) = Inr (b, ''16:9'')"
    by (simp add: prepareImageForGenAI_def js_div_def bestMatch_def supported_def closer_def)
  have e3: "prepareImageForGenAI (Loaded b 1080 1920) = Inr (b, ''9:16'')"
    by (simp add: prepareImageForGenAI_def js_div_def bestMatch_def supported_def closer_def)
  have e4: "prepareImageForGenAI (Loaded b 800 600) = Inr (b, ''4:3'')"
    by (simp add: prepareImageForGenAI_def js_div_def bestMatch_def supported_def closer_def)
  from nearest tbl e1 e2 e3 e4 show ?thesis by blast
qed

text \<open>The statement at 7 by 8, halfway between "3:4" and "1:1": the earlier label wins.\<close>

theorem aspect_ratio_closest_witness:
  "(0::nat) < 7 \<and> (0::nat) < 8
   \<and> prepareImageForGenAI (Loaded ''AAAA'' 7 8) = Inr (''AAAA'', ''1:1'')
   \<and> (\<exists>k < length supported.
         prepareImageForGenAI (Loaded ''AAAA'' 7 8) = Inr (''AAAA'', id_r (supported ! k)) \<and>
         (\<forall>j < length supported.
            \<bar>val (supported ! k) - of_nat 7 / of_nat 8\<bar> \<le> \<bar>val (supported ! j) - of_nat 7 / of_nat 8\<bar>) \<and>
         (\<forall>j < k.
            \<bar>val (supported ! k) - of_nat 7 / of_nat 8\<bar> < \<bar>val (supported ! j) - of_nat 7 / of_nat 8\<bar>))"
proof -
  have h1: "(0::nat) < 7" and h2: "(0::nat) < 8" by simp_all
  have v: "prepareImageForGenAI (Loaded ''AAAA'' 7 8) = Inr (''AAAA'', ''1:1'')"
    by (simp add: prepareImageForGenAI_def js_div_def bestMatch_def supported_def closer_def)
  have ex: "\<exists>k < length supported.
         prepareImageForGenAI (Loaded ''AAAA'' 7 8) = Inr (''AAAA'', id_r (supported ! k)) \<and>
         (\<forall>j < length supported.
            \<bar>val (supported ! k) - of_nat 7 / of_nat 8\<bar> \<le> \<bar>val (supported ! j) - of_nat 7 / of_nat 8\<bar>) \<and>
         (\<forall>j < k.
            \<bar>val (supported ! k) - of_nat 7 / of_nat 8\<bar> < \<bar>val (supported ! j) - of_nat 7 / of_nat 8\<bar>)"
    using aspect_ratio_closest [OF h1 h2, of "''AAAA''"] by (rule conjunct1)
  show ?thesis by (intro conjI h1 h2 v ex)
qed

text \<open>
  Claim C7 as stated fails: with height zero the quotient is \<open>Infinity\<close>, no
  comparison succeeds, and the first label is returned; nothing is signalled.
\<close>

theorem zero_height_counterexample:
  "prepareImageForGenAI (Loaded ''AAAA'' 1920 0) = Inr (''AAAA'', ''1:1'')
   \<and> \<not> isl (prepareImageForGenAI (Loaded ''AAAA'' 1920 0))"
  by (simp add: prepareImageForGenAI_def js_div_def bestMatch_def supported_def closer_def)

text \<open>
  Claim C7, amended.  Once the image has loaded, \<open>prepareImageForGenAI\<close> never fails
  on the dimensions: for every width and height it returns one of the five supported
  labels, and for height zero that label is "1:1".
\<close>

theorem matcher_never_fails:
  "prepareImageForGenAI (Loaded b w h) \<in> (\<lambda>e. Inr (b, id_r e)) ` set supported
   \<and> prepareImageForGenAI (Loaded b w 0) = Inr (b, ''1:1'')"
proof -
  obtain x xs where s: "supported = x # xs" and x: "id_r x = ''1:1''"
    by (simp add: supported_def)
  have "bestMatch r = Some (foldl (closer r) x xs)" for r
    by (simp add: bestMatch_def s)
  moreover have "foldl (closer r) x xs \<in> set supported" for r
    unfolding s by (rule foldl_closer_mem)
  ultimately have mem: "prepareImageForGenAI (Loaded b w h) \<in> (\<lambda>e. Inr (b, id_r e)) ` set supported"
    by (simp add: prepareImageForGenAI_def)
  have "bestMatch (js_div w 0) = Some x"
    by (simp add: bestMatch_def s js_div_def foldl_closer_PosInf foldl_closer_NaN)
  then have "prepareImageForGenAI (Loaded b w 0) = Inr (b, ''1:1'')"
    by (simp add: prepareImageForGenAI_def x)
  with mem show ?thesis by blast
qed

section \<open>The request text\<close>

text \<open>
  Claim C10.  The text of the request is the global instruction, one space, and the
  custom instruction of the item, or nothing when the item has none; the request a
  run sends is built from the global instruction the run captured when it started.
\<close>

theorem composed_instruction:
  assumes "k < length (runs s)"
    and "pc (runs s ! k) = AwaitPrepare item"
    and "pc (runs (step (Prepared k p) s) ! k) = AwaitGenerate it req"
  shows "text_r (buildRequest g item b a) =
           g @ '' '' @ (case customPrompt item of None \<Rightarrow> [] | Some c \<Rightarrow> c)
       \<and> it = item
       \<and> text_r req =
           prompt (runs s ! k) @ '' '' @ (case customPrompt item of None \<Rightarrow> [] | Some c \<Rightarrow> c)"
proof -
  have t: "text_r (buildRequest g' item b' a') =
             g' @ '' '' @ (case customPrompt item of None \<Rightarrow> [] | Some c \<Rightarrow> c)" for g' b' a'
    by (simp add: buildRequest_def finalPrompt_def or_else_def split: option.splits)
  have "it = item \<and> text_r req =
           prompt (runs s ! k) @ '' '' @ (case customPrompt item of None \<Rightarrow> [] | Some c \<Rightarrow> c)"
    using assms t
    by (auto simp: prepared_def catchBlock_def Let_def split: sum.splits prod.splits if_splits)
  with t show ?thesis by blast
qed

theorem composed_instruction_witness:
  "(let s = exec [upload2, UpdateItemPrompt ''a'' ''hello'', SetGlobalPrompt ''Say:'',
                  ProcessQueue, Iterate 0] initial;
        s' = step (Prepared 0 (Loaded ''AAAA'' 4 3)) s
    in 0 < length (runs s)
       \<and> (\<exists>item it req. pc (runs s ! 0) = AwaitPrepare item
            \<and> pc (runs s' ! 0) = AwaitGenerate it req
            \<and> customPrompt item = Some ''hello''
            \<and> text_r req = ''Say: hello''))"
proof -
  define s where "s = exec [upload2, UpdateItemPrompt ''a'' ''hello'', SetGlobalPrompt ''Say:'',
                  ProcessQueue, Iterate 0] initial"
  define a where "a = \<lparr>id_q = ''a'', file_q = png, previewUrl = ''blob:a'', status = Idle,
                         resultUrl = None, customPrompt = Some ''hello'', errorMsg = None\<rparr>"
  define req where "req = buildRequest ''Say:'' a ''AAAA'' ''4:3''"
  define b where "b = \<lparr>id_q = ''b'', file_q = png, previewUrl = ''blob:b'', status = Idle,
                         resultUrl = None, customPrompt = None, errorMsg = None\<rparr>"
  have r: "runs s = [\<lparr>prompt = ''Say:'', rest = [b], pc = AwaitPrepare a\<rparr>]"
    unfolding s_def a_def b_def
    by (simp add: upload2_def handleFiles_def updateItemPrompt_def processQueue_def iterate_def
         markProcessing_def initial_def)
  have h1: "0 < length (runs s)" by (subst r) simp
  have h2: "pc (runs s ! 0) = AwaitPrepare a" by (subst r) simp
  have pr: "prompt (runs s ! 0) = ''Say:''" by (subst r) simp
  have h3: "pc (runs (step (Prepared 0 (Loaded ''AAAA'' 4 3)) s) ! 0) = AwaitGenerate a req"
    using h1 h2 pr
    by (simp add: prepared_def prepareImageForGenAI_def js_div_def bestMatch_def supported_def
         closer_def req_def)
  from composed_instruction [OF h1 h2 h3]
  have "text_r req = ''Say: hello''"
    by (simp add: pr a_def)
  with h1 h2 h3 show ?thesis
    unfolding s_def [symmetric] Let_def by (auto simp: a_def)
qed

section \<open>The labels recorded by the \<open>catch\<close> block\<close>

text \<open>
  Claim C8 as stated fails where a message holds both markers: the assignment for
  "429" comes after the one for "Safety" and replaces it.
\<close>

theorem safety_and_429_counterexample:
  "\<not> authRejected (Some ''429 Safety'')
   \<and> message_includes (Some ''429 Safety'') ''Safety''
   \<and> errorMsgOf (Some ''429 Safety'') = msg_rate
   \<and> errorMsgOf (Some ''429 Safety'') \<noteq> msg_safety"
  by (simp add: authRejected_def message_includes_def errorMsgOf_def msg_rate_def msg_safety_def)

text \<open>
  Claim C8, amended.  For a failure that is not an authentication rejection the label
  is the rate-limit one when the message contains "429", otherwise the safety one when
  the message contains "Safety", otherwise the generic one; when the request of the
  item in flight is rejected, every queue entry with the identifier of that item gets
  status \<open>Error\<close> and this label as its error message.
\<close>

theorem classified_label_recorded:
  assumes "k < length (runs s)"
    and "pc (runs s ! k) = AwaitGenerate item req"
    and "\<not> authRejected err"
  shows "errorMsgOf err =
           (if message_includes err ''429'' then msg_rate
            else if message_includes err ''Safety'' then msg_safety
            else msg_failed)
       \<and> queue (step (Generated k (Rejected err)) s) =
           map (\<lambda>x. if id_q x = id_q item
                     then x\<lparr>status := Error, errorMsg := Some (errorMsgOf err)\<rparr> else x)
               (queue s)"
  using assms by (simp add: errorMsgOf_def generated_def catchBlock_def markError_def)

theorem classified_label_recorded_witness:
  "(let s = exec [upload2, ProcessQueue, Iterate 0, Prepared 0 (Loaded ''AAAA'' 4 3)] initial;
        s' = step (Generated 0 (Rejected (Some ''Safety''))) s
    in \<not> authRejected (Some ''Safety'')
       \<and> errorMsgOf (Some ''Safety'') = msg_safety
       \<and> map status (queue s') = [Error, Idle]
       \<and> map errorMsg (queue s') = [Some msg_safety, None])"
proof -
  define s where "s = exec [upload2, ProcessQueue, Iterate 0, Prepared 0 (Loaded ''AAAA'' 4 3)] initial"
  define a where "a = \<lparr>id_q = ''a'', file_q = png, previewUrl = ''blob:a'', status = Idle,
                         resultUrl = None, customPrompt = None, errorMsg = None\<rparr>"
  have r: "map pc (runs s) = [AwaitGenerate a (buildRequest (globalPrompt initial) a ''AAAA'' ''4:3'')]"
    and q: "map id_q (queue s) = [''a'', ''b'']" "map status (queue s) = [Processing, Idle]"
       "map errorMsg (queue s) = [None, None]"
    unfolding s_def a_def
    by (simp_all add: upload2_def handleFiles_def processQueue_def iterate_def prepared_def
         markProcessing_def prepareImageForGenAI_def js_div_def bestMatch_def supported_def closer_def
         initial_def)
  have h1: "0 < length (runs s)" using r by auto
  have h2: "pc (runs s ! 0) = AwaitGenerate a (buildRequest (globalPrompt initial) a ''AAAA'' ''4:3'')"
    using r by (cases "runs s") auto
  have h3: "\<not> authRejected (Some ''Safety'')"
    by (simp add: authRejected_def message_includes_def)
  have m: "message_includes (Some ''Safety'') ''Safety''" "\<not> message_includes (Some ''Safety'') ''429''"
    by (simp_all add: message_includes_def)
  from classified_label_recorded [OF h1 h2 h3]
  have l: "errorMsgOf (Some ''Safety'') = msg_safety"
    and q': "queue (step (Generated 0 (Rejected (Some ''Safety''))) s) =
           map (\<lambda>x. if id_q x = id_q a
                     then x\<lparr>status := Error, errorMsg := Some (errorMsgOf (Some ''Safety''))\<rparr> else x)
               (queue s)"
    using m by simp_all
  obtain x y where xy: "queue s = [x, y]" using q(1) by (cases "queue s"; cases "tl (queue s)") auto
  have "map status (queue (step (Generated 0 (Rejected (Some ''Safety''))) s)) = [Error, Idle]"
    and "map errorMsg (queue (step (Generated 0 (Rejected (Some ''Safety''))) s)) = [Some msg_safety, None]"
    unfolding q' l using q xy by (simp_all add: a_def)
  then show ?thesis
    unfolding s_def [symmetric] Let_def using h3 l by simp
qed

section \<open>Items removed before their turn\<close>

lemma find_id_None: "find (\<lambda>i. id_q i = j) q = None \<longleftrightarrow> j \<notin> id_q ` set q"
  by (auto simp: find_None_iff)

lemma find_id_Some: "j \<in> id_q ` set q \<Longrightarrow> \<exists>x. find (\<lambda>i. id_q i = j) q = Some x"
  by (cases "find (\<lambda>i. id_q i = j) q") (auto simp: find_None_iff)

text \<open>
  Claim C9.  When the next item of the work list is no longer in the queue, the head
  of the loop changes nothing but the position of the run: queue and flags stay as
  they are, the run stays at the head of the loop with the item dropped, and its next
  turn takes the following item.
\<close>

theorem skip_removed_item:
  assumes "k < length (runs s)"
    and "pc (runs s ! k) = LoopHead"
    and "rest (runs s ! k) = item # later"
    and "id_q item \<notin> id_q ` set (queue s)"
  shows "step (Iterate k) s = s\<lparr>runs := (runs s)[k := (runs s ! k)\<lparr>rest := later\<rparr>]\<rparr>
       \<and> queue (step (Iterate k) s) = queue s
       \<and> hasKey (step (Iterate k) s) = hasKey s
       \<and> isProcessing (step (Iterate k) s) = isProcessing s
       \<and> pc (runs (step (Iterate k) s) ! k) = LoopHead
       \<and> rest (runs (step (Iterate k) s) ! k) = later
       \<and> (\<forall>nxt more. later = nxt # more \<and> id_q nxt \<in> id_q ` set (queue s) \<longrightarrow>
            pc (runs (step (Iterate k) (step (Iterate k) s)) ! k) = AwaitPrepare nxt)"
proof -
  let ?s' = "s\<lparr>runs := (runs s)[k := (runs s ! k)\<lparr>rest := later\<rparr>]\<rparr>"
  have f: "find (\<lambda>i. id_q i = id_q item) (queue s) = None"
    using assms(4) by (simp add: find_id_None)
  have eq: "step (Iterate k) s = ?s'"
    using assms(1-3) f by (simp add: iterate_def)
  have nxt: "pc (runs (step (Iterate k) ?s') ! k) = AwaitPrepare nxt"
    if "later = nxt # more" "id_q nxt \<in> id_q ` set (queue s)" for nxt more
  proof -
    from that(2) obtain x where "find (\<lambda>i. id_q i = id_q nxt) (queue s) = Some x"
      using find_id_Some by blast
    then show ?thesis using assms(1,2) that(1) by (simp add: iterate_def)
  qed
  show ?thesis
    unfolding eq using assms(1,2) nxt by simp
qed

theorem skip_removed_item_witness:
  "(let s = exec [upload2, ProcessQueue, RemoveItem ''a''] initial;
        s' = step (Iterate 0) s
    in queue s' = queue s \<and> map id_q (rest (runs s' ! 0)) = [''b'']
       \<and> pc (runs (step (Iterate 0) s') ! 0) =
           AwaitPrepare \<lparr>id_q = ''b'', file_q = png, previewUrl = ''blob:b'', status = Idle,
                         resultUrl = None, customPrompt = None, errorMsg = None\<rparr>)"
proof -
  define s where "s = exec [upload2, ProcessQueue, RemoveItem ''a''] initial"
  define a where "a = \<lparr>id_q = ''a'', file_q = png, previewUrl = ''blob:a'', status = Idle,
                         resultUrl = None, customPrompt = None, errorMsg = None\<rparr>"
  define b where "b = \<lparr>id_q = ''b'', file_q = png, previewUrl = ''blob:b'', status = Idle,
                         resultUrl = None, customPrompt = None, errorMsg = None\<rparr>"
  have q: "queue s = [b]" and r: "runs s = [\<lparr>prompt = globalPrompt initial, rest = [a, b], pc = LoopHead\<rparr>]"
    by (simp_all add: s_def a_def b_def upload2_def initial_def handleFiles_def processQueue_def removeItem_def)
  have h1: "0 < length (runs s)" by (simp add: r)
  have h2: "pc (runs s ! 0) = LoopHead" by (simp add: r)
  have h3: "rest (runs s ! 0) = a # [b]" by (simp add: r)
  have h4: "id_q a \<notin> id_q ` set (queue s)" by (simp add: q a_def b_def)
  have h5: "id_q b \<in> id_q ` set (queue s)" by (simp add: q)
  from skip_removed_item [OF h1 h2 h3 h4] h5
  have "queue (step (Iterate 0) s) = queue s"
    and "rest (runs (step (Iterate 0) s) ! 0) = [b]"
    and "pc (runs (step (Iterate 0) (step (Iterate 0) s)) ! 0) = AwaitPrepare b"
    by blast+
  then show ?thesis
    unfolding s_def [symmetric] Let_def by (simp add: b_def)
qed


section \<open>The work list of a run\<close>

text \<open>No step of a run touches a queue entry whose identifier is outside its work.\<close>

lemma markProcessing_other: "x \<in> set (markProcessing i q) \<Longrightarrow> id_q x \<noteq> i \<Longrightarrow> x \<in> set q"
  by (auto simp: markProcessing_def split: if_splits)

lemma markSuccess_other: "x \<in> set (markSuccess i u q) \<Longrightarrow> id_q x \<noteq> i \<Longrightarrow> x \<in> set q"
  by (auto simp: markSuccess_def split: if_splits)

lemma markError_other: "x \<in> set (markError i m q) \<Longrightarrow> id_q x \<noteq> i \<Longrightarrow> x \<in> set q"
  by (auto simp: markError_def split: if_splits)

lemma confinedI:
  assumes "\<And>r. r \<in> set (runs s) \<Longrightarrow> id_q ` set (workItems r) \<subseteq> I"
    and "\<And>x. x \<in> set (queue s) \<Longrightarrow> id_q x \<notin> I \<Longrightarrow> untouched x"
  shows "confined I s"
  using assms unfolding confined_def by blast

lemma confined_runs: "confined I s \<Longrightarrow> r \<in> set (runs s) \<Longrightarrow> id_q ` set (workItems r) \<subseteq> I"
  unfolding confined_def by blast

lemma confined_queue: "confined I s \<Longrightarrow> x \<in> set (queue s) \<Longrightarrow> id_q x \<notin> I \<Longrightarrow> untouched x"
  unfolding confined_def by blast

lemma confined_update:
  assumes c: "confined I s"
    and k: "k < length (runs s)"
    and w: "set (workItems r') \<subseteq> set (workItems (runs s ! k))"
    and q: "\<And>x. x \<in> set q' \<Longrightarrow> id_q x \<notin> I \<Longrightarrow> x \<in> set (queue s)"
    and s': "runs s' = (runs s)[k := r']" "queue s' = q'"
  shows "confined I s'"
proof (rule confinedI)
  fix r assume "r \<in> set (runs s')"
  then have "r = r' \<or> r \<in> set (runs s)"
    unfolding s' using set_update_subset_insert [of "runs s" k r'] by blast
  moreover have "id_q ` set (workItems (runs s ! k)) \<subseteq> I"
    using c k by (intro confined_runs [of I s]) simp_all
  ultimately show "id_q ` set (workItems r) \<subseteq> I"
    using w c confined_runs by blast
next
  fix x assume "x \<in> set (queue s')" "id_q x \<notin> I"
  then show "untouched x" using q c confined_queue unfolding s' by blast
qed

lemma inFlight_known:
  assumes "confined I s" "k < length (runs s)" "item \<in> set (workItems (runs s ! k))"
  shows "id_q item \<in> I"
  using assms confined_runs [of I s "runs s ! k"] by auto

lemma confined_iterate:
  assumes c: "confined I s" and k: "k < length (runs s)" and p: "pc (runs s ! k) = LoopHead"
  shows "confined I (iterate k s)"
proof (cases "rest (runs s ! k)")
  case Nil
  show ?thesis
    by (rule confined_update [OF c k, where r' = "(runs s ! k)\<lparr>pc := Returned\<rparr>" and q' = "queue s"])
       (simp_all add: iterate_def Let_def Nil workItems_def)
next
  case (Cons item later)
  have kn: "id_q item \<in> I"
    using inFlight_known [OF c k, of item] by (simp add: workItems_def Cons)
  show ?thesis
  proof (cases "find (\<lambda>i. id_q i = id_q item) (queue s)")
    case None
    show ?thesis
      by (rule confined_update [OF c k, where r' = "(runs s ! k)\<lparr>rest := later\<rparr>" and q' = "queue s"])
         (auto simp: iterate_def Let_def Cons None workItems_def p)
  next
    case (Some y)
    show ?thesis
    proof (rule confined_update [OF c k, where r' = "(runs s ! k)\<lparr>rest := later, pc := AwaitPrepare item\<rparr>"
            and q' = "markProcessing (id_q item) (queue s)"])
      show "set (workItems ((runs s ! k)\<lparr>rest := later, pc := AwaitPrepare item\<rparr>)) \<subseteq> set (workItems (runs s ! k))"
        by (auto simp: workItems_def Cons)
      show "x \<in> set (queue s)" if "x \<in> set (markProcessing (id_q item) (queue s))" "id_q x \<notin> I" for x
        using that kn by (auto intro: markProcessing_other)
    qed (simp_all add: iterate_def Let_def Cons Some)
  qed
qed

lemma confined_catchBlock:
  assumes c: "confined I s" and k: "k < length (runs s)" and p: "inFlight (pc (runs s ! k)) = [item]"
  shows "confined I (catchBlock k item err s)"
proof -
  have kn: "id_q item \<in> I"
    using inFlight_known [OF c k, of item] by (simp add: workItems_def p)
  show ?thesis
  proof (cases "authRejected err")
    case True
    show ?thesis
      by (rule confined_update [OF c k, where r' = "(runs s ! k)\<lparr>pc := Returned\<rparr>" and q' = "queue s"])
         (auto simp: catchBlock_def True workItems_def)
  next
    case False
    show ?thesis
    proof (rule confined_update [OF c k, where r' = "(runs s ! k)\<lparr>pc := LoopHead\<rparr>"
            and q' = "markError (id_q item) (errorMsgOf err) (queue s)"])
      show "x \<in> set (queue s)" if "x \<in> set (markError (id_q item) (errorMsgOf err) (queue s))" "id_q x \<notin> I" for x
        using that kn by (auto intro: markError_other)
    qed (auto simp: catchBlock_def False workItems_def)
  qed
qed

lemma confined_prepared:
  assumes c: "confined I s" and k: "k < length (runs s)"
  shows "confined I (prepared k p s)"
proof (cases "pc (runs s ! k)")
  case (AwaitPrepare item)
  show ?thesis
  proof (cases "prepareImageForGenAI p")
    case (Inl err)
    then show ?thesis
      using confined_catchBlock [OF c k, of item err] by (simp add: prepared_def Let_def AwaitPrepare)
  next
    case (Inr ba)
    obtain b a where ba: "ba = (b, a)" by (cases ba)
    show ?thesis
      by (rule confined_update [OF c k, where q' = "queue s"
            and r' = "(runs s ! k)\<lparr>pc := AwaitGenerate item (buildRequest (prompt (runs s ! k)) item b a)\<rparr>"])
         (auto simp: prepared_def Let_def AwaitPrepare Inr ba workItems_def)
  qed
qed (simp_all add: prepared_def Let_def c)

lemma confined_generated:
  assumes c: "confined I s" and k: "k < length (runs s)"
  shows "confined I (generated k res s)"
proof (cases "pc (runs s ! k)")
  case (AwaitGenerate item req)
  have kn: "id_q item \<in> I"
    using inFlight_known [OF c k, of item] by (simp add: workItems_def AwaitGenerate)
  have cb: "confined I (catchBlock k item err s)" for err
    using confined_catchBlock [OF c k, of item err] by (simp add: AwaitGenerate)
  show ?thesis
  proof (cases res)
    case (Rejected err)
    then show ?thesis using cb by (simp add: generated_def Let_def AwaitGenerate)
  next
    case (Resolved resp)
    show ?thesis
    proof (cases "extractImage resp")
      case None
      then show ?thesis using cb by (simp add: generated_def Let_def AwaitGenerate Resolved)
    next
      case (Some url)
      show ?thesis
      proof (rule confined_update [OF c k, where r' = "(runs s ! k)\<lparr>pc := LoopHead\<rparr>"
            and q' = "markSuccess (id_q item) url (queue s)"])
        show "x \<in> set (queue s)" if "x \<in> set (markSuccess (id_q item) url (queue s))" "id_q x \<notin> I" for x
          using that kn by (auto intro: markSuccess_other)
      qed (auto simp: generated_def Let_def AwaitGenerate Resolved Some workItems_def)
    qed
  qed
qed (simp_all add: generated_def Let_def c)

lemma confined_user:
  assumes c: "confined I s"
  shows "confined I (handleFiles fs s)" "confined I (removeItem i s)"
    "confined I (updateItemPrompt i p s)" "confined I (s\<lparr>globalPrompt := g\<rparr>)"
    "confined I (s\<lparr>queue := []\<rparr>)" "confined I (cancelProcessing s)" "confined I (s\<lparr>hasKey := b\<rparr>)"
  using c
  by (auto simp: confined_def handleFiles_def removeItem_def updateItemPrompt_def cancelProcessing_def
      untouched_def split: option.splits)

lemma confined_step:
  assumes "confined I s" and "e \<noteq> ProcessQueue"
  shows "confined I (step e s)"
  using assms
  by (cases e) (simp_all add: confined_user confined_iterate confined_prepared confined_generated)

lemma confined_exec:
  "confined I s \<Longrightarrow> ProcessQueue \<notin> set es \<Longrightarrow> confined I (exec es s)"
proof (induction es arbitrary: s)
  case Nil
  then show ?case by simp
next
  case (Cons e es)
  from Cons.prems have "e \<noteq> ProcessQueue" "ProcessQueue \<notin> set es" by auto
  with Cons.prems(1) Cons.IH [of "step e s"] show ?case
    by (simp add: confined_step)
qed

lemma confined_known: "confined (known s) s"
  unfolding confined_def known_def by blast

text \<open>The work of a run only shrinks: it is always a suffix of what it was.\<close>

lemma workItems_update:
  assumes "k < length (runs s)"
    and "runs s' = (runs s)[j := r']"
    and "suffix (workItems r') (workItems (runs s ! j))"
  shows "suffix (workItems (runs s' ! k)) (workItems (runs s ! k))"
  using assms by (cases "j = k") simp_all

lemma suffix_iterate:
  assumes "k < length (runs s)" and "pc (runs s ! j) = LoopHead"
  shows "suffix (workItems (runs (iterate j s) ! k)) (workItems (runs s ! k))"
proof (cases "rest (runs s ! j)")
  case Nil
  show ?thesis
    by (rule workItems_update [OF assms(1), where j = j and r' = "(runs s ! j)\<lparr>pc := Returned\<rparr>"])
       (simp_all add: iterate_def Let_def Nil workItems_def assms(2) suffix_def)
next
  case (Cons item later)
  show ?thesis
  proof (cases "find (\<lambda>i. id_q i = id_q item) (queue s)")
    case None
    show ?thesis
      by (rule workItems_update [OF assms(1), where j = j and r' = "(runs s ! j)\<lparr>rest := later\<rparr>"])
         (simp_all add: iterate_def Let_def Cons None workItems_def assms(2) suffix_def)
  next
    case (Some y)
    show ?thesis
      by (rule workItems_update [OF assms(1), where j = j
            and r' = "(runs s ! j)\<lparr>rest := later, pc := AwaitPrepare item\<rparr>"])
         (simp_all add: iterate_def Let_def Cons Some workItems_def assms(2) suffix_def)
  qed
qed

lemma suffix_catchBlock:
  assumes "k < length (runs s)" and "inFlight (pc (runs s ! j)) = [item]"
  shows "suffix (workItems (runs (catchBlock j item err s) ! k)) (workItems (runs s ! k))"
proof (cases "authRejected err")
  case True
  show ?thesis
    by (rule workItems_update [OF assms(1), where j = j and r' = "(runs s ! j)\<lparr>pc := Returned\<rparr>"])
       (simp_all add: catchBlock_def True workItems_def assms(2) suffix_def)
next
  case False
  show ?thesis
    by (rule workItems_update [OF assms(1), where j = j and r' = "(runs s ! j)\<lparr>pc := LoopHead\<rparr>"])
       (simp_all add: catchBlock_def False workItems_def assms(2) suffix_def)
qed

lemma suffix_prepared:
  assumes "k < length (runs s)"
  shows "suffix (workItems (runs (prepared j p s) ! k)) (workItems (runs s ! k))"
proof (cases "pc (runs s ! j)")
  case (AwaitPrepare item)
  show ?thesis
  proof (cases "prepareImageForGenAI p")
    case (Inl err)
    then show ?thesis
      using suffix_catchBlock [OF assms, of j item err] by (simp add: prepared_def Let_def AwaitPrepare)
  next
    case (Inr ba)
    obtain b a where ba: "ba = (b, a)" by (cases ba)
    show ?thesis
      by (rule workItems_update [OF assms, where j = j
            and r' = "(runs s ! j)\<lparr>pc := AwaitGenerate item (buildRequest (prompt (runs s ! j)) item b a)\<rparr>"])
         (simp_all add: prepared_def Let_def AwaitPrepare Inr ba workItems_def suffix_def)
  qed
qed (simp_all add: prepared_def Let_def)

lemma suffix_generated:
  assumes "k < length (runs s)"
  shows "suffix (workItems (runs (generated j res s) ! k)) (workItems (runs s ! k))"
proof (cases "pc (runs s ! j)")
  case (AwaitGenerate item req)
  have cb: "suffix (workItems (runs (catchBlock j item err s) ! k)) (workItems (runs s ! k))" for err
    using suffix_catchBlock [OF assms, of j item err] by (simp add: AwaitGenerate)
  show ?thesis
  proof (cases res)
    case (Rejected err)
    then show ?thesis using cb by (simp add: generated_def Let_def AwaitGenerate)
  next
    case (Resolved resp)
    show ?thesis
    proof (cases "extractImage resp")
      case None
      then show ?thesis using cb by (simp add: generated_def Let_def AwaitGenerate Resolved)
    next
      case (Some url)
      show ?thesis
        by (rule workItems_update [OF assms, where j = j and r' = "(runs s ! j)\<lparr>pc := LoopHead\<rparr>"])
           (simp_all add: generated_def Let_def AwaitGenerate Resolved Some workItems_def suffix_def)
    qed
  qed
qed (simp_all add: generated_def Let_def)

lemma length_runs_catchBlock: "length (runs (catchBlock j item err s)) = length (runs s)"
  by (simp add: catchBlock_def)

lemma length_runs_step: "length (runs s) \<le> length (runs (step e s))"
  by (cases e)
     (auto simp: handleFiles_def removeItem_def updateItemPrompt_def cancelProcessing_def
        processQueue_def iterate_def prepared_def generated_def Let_def length_runs_catchBlock
        split: option.splits list.splits pc.splits sum.splits api_result.splits)

lemma suffix_step:
  assumes "k < length (runs s)"
  shows "suffix (workItems (runs (step e s) ! k)) (workItems (runs s ! k))"
  using assms
  by (cases e)
     (simp_all add: handleFiles_def removeItem_def updateItemPrompt_def cancelProcessing_def
        processQueue_def nth_append suffix_iterate suffix_prepared suffix_generated
        split: option.splits)

lemma suffix_exec:
  "k < length (runs s) \<Longrightarrow>
     k < length (runs (exec es s)) \<and> suffix (workItems (runs (exec es s) ! k)) (workItems (runs s ! k))"
proof (induction es arbitrary: s)
  case Nil
  then show ?case by simp
next
  case (Cons e es)
  have k': "k < length (runs (step e s))"
    using Cons.prems length_runs_step [of s e] by simp
  from Cons.IH [OF k'] suffix_step [OF Cons.prems, of e] show ?case
    by (auto intro: suffix_order.trans)
qed

text \<open>
  Claim C6.  A call of \<open>processQueue\<close> that is not refused starts a run whose work
  list is the queue filtered to the entries with status \<open>Idle\<close> or \<open>Error\<close>, in queue
  order.  Whatever happens afterwards, the work of that run is a suffix of this list,
  so nothing is ever added to it; and as long as no further run is started, every
  queue entry whose identifier was unknown when the run started (an entry enqueued
  later) stays untouched.
\<close>

theorem worklist_snapshot:
  assumes "\<not> isProcessing s"
  shows "runs (step ProcessQueue s) =
           runs s @ [\<lparr>prompt = globalPrompt s,
                      rest = filter (\<lambda>item. status item = Idle \<or> status item = Error) (queue s),
                      pc = LoopHead\<rparr>]
       \<and> (\<forall>es. suffix (workItems (runs (exec es (step ProcessQueue s)) ! length (runs s)))
                       (filter (\<lambda>item. status item = Idle \<or> status item = Error) (queue s)))
       \<and> (\<forall>es x. ProcessQueue \<notin> set es
                  \<and> x \<in> set (queue (exec es (step ProcessQueue s)))
                  \<and> id_q x \<notin> known (step ProcessQueue s)
                \<longrightarrow> untouched x)"
proof -
  let ?s0 = "step ProcessQueue s"
  let ?snap = "filter (\<lambda>item. status item = Idle \<or> status item = Error) (queue s)"
  have r: "runs ?s0 = runs s @ [\<lparr>prompt = globalPrompt s, rest = ?snap, pc = LoopHead\<rparr>]"
    using assms by (simp add: processQueue_def)
  have k: "length (runs s) < length (runs ?s0)" and w: "workItems (runs ?s0 ! length (runs s)) = ?snap"
    using r by (simp_all add: workItems_def)
  have "suffix (workItems (runs (exec es ?s0) ! length (runs s))) ?snap" for es
    using suffix_exec [OF k, of es] unfolding w by (rule conjunct2)
  moreover have "untouched x"
    if "ProcessQueue \<notin> set es" "x \<in> set (queue (exec es ?s0))" "id_q x \<notin> known ?s0" for es x
    using confined_exec [OF confined_known that(1)] that(2,3) by (rule confined_queue)
  ultimately show ?thesis using r by blast
qed

lemmas trace_defs =
  initial_def upload2_def upload3_def loadedProbe_def imageResponse_def authFailure_def png_def
  handleFiles_def removeItem_def cancelProcessing_def processQueue_def iterate_def
  prepared_def generated_def catchBlock_def markProcessing_def markSuccess_def markError_def
  prepareImageForGenAI_def js_div_def bestMatch_def supported_def closer_def
  extractImage_def authRejected_def message_includes_def

text \<open>
  The statement for two uploaded files and a third one uploaded while the first is
  in flight: the third stays untouched while the run works through the first two.
\<close>

theorem worklist_snapshot_witness:
  "(let s = exec [upload2] initial;
        es = [Iterate 0, HandleFiles (Some [(''c'', png, ''blob:c'')]),
              Prepared 0 loadedProbe, Generated 0 imageResponse, Iterate 0];
        s' = exec es (step ProcessQueue s)
    in \<not> isProcessing s
       \<and> ProcessQueue \<notin> set es
       \<and> map id_q (rest (runs (step ProcessQueue s) ! 0)) = [''a'', ''b'']
       \<and> ''c'' \<notin> known (step ProcessQueue s)
       \<and> map id_q (queue s') = [''a'', ''b'', ''c'']
       \<and> map status (queue s') = [Success, Processing, Idle]
       \<and> (\<forall>x \<in> set (queue s'). id_q x = ''c'' \<longrightarrow> untouched x)
       \<and> suffix (workItems (runs s' ! 0))
            (filter (\<lambda>item. status item = Idle \<or> status item = Error) (queue s)))"
proof -
  define s where "s = exec [upload2] initial"
  define es where "es = [Iterate 0, HandleFiles (Some [(''c'', png, ''blob:c'')]),
              Prepared 0 loadedProbe, Generated 0 imageResponse, Iterate 0]"
  define s' where "s' = exec es (step ProcessQueue s)"
  have h: "\<not> isProcessing s"
    by (simp add: s_def upload2_def handleFiles_def initial_def)
  have n: "length (runs s) = 0"
    by (simp add: s_def upload2_def handleFiles_def initial_def)
  have e: "ProcessQueue \<notin> set es" by (simp add: es_def)
  have r: "map id_q (rest (runs (step ProcessQueue s) ! 0)) = [''a'', ''b'']"
    by (simp add: s_def upload2_def handleFiles_def initial_def processQueue_def)
  have k: "''c'' \<notin> known (step ProcessQueue s)"
    by (simp add: s_def upload2_def handleFiles_def initial_def processQueue_def known_def
          workItems_def)
  have q: "map id_q (queue s') = [''a'', ''b'', ''c'']"
    "map status (queue s') = [Success, Processing, Idle]"
    unfolding s'_def s_def es_def by (simp_all add: trace_defs)
  note w = worklist_snapshot [OF h]
  have w2: "suffix (workItems (runs s' ! 0))
              (filter (\<lambda>item. status item = Idle \<or> status item = Error) (queue s))"
    using w [THEN conjunct2, THEN conjunct1, rule_format, of es] n unfolding s'_def by simp
  have w3: "untouched x" if "x \<in> set (queue s')" "id_q x = ''c''" for x
  proof -
    have "id_q x \<notin> known (step ProcessQueue s)" using k that(2) by simp
    with e that(1) show ?thesis
      using w [THEN conjunct2, THEN conjunct2, rule_format, of es x] unfolding s'_def by simp
  qed
  show ?thesis
    unfolding Let_def s_def [symmetric] es_def [symmetric] s'_def [symmetric]
    using h e r k q w2 w3 by blast
qed

section \<open>Runs that end early or overlap\<close>

text \<open>
  What the \<open>catch\<close> block does on a rejected key, for any state: both flags are
  cleared, the run has returned and the queue is as it was.  A run that has returned
  takes no further step.
\<close>

lemma rejected_key_aborts_run:
  assumes "k < length (runs s)"
    and "pc (runs s ! k) = AwaitGenerate item req"
    and "authRejected err"
  shows "\<not> hasKey (step (Generated k (Rejected err)) s)
       \<and> \<not> isProcessing (step (Generated k (Rejected err)) s)
       \<and> pc (runs (step (Generated k (Rejected err)) s) ! k) = Returned
       \<and> rest (runs (step (Generated k (Rejected err)) s) ! k) = rest (runs s ! k)
       \<and> queue (step (Generated k (Rejected err)) s) = queue s"
  using assms by (simp add: generated_def catchBlock_def)

lemma returned_run_is_inert:
  assumes "pc (runs s ! k) = Returned"
  shows "step (Iterate k) s = s" and "step (Prepared k p) s = s" and "step (Generated k res) s = s"
  using assms by (simp_all add: prepared_def generated_def)

text \<open>
  Claim C1.  Three files are uploaded, the first request succeeds and the second is
  rejected with "Requested entity was not found.".  The key flag and the active flag
  are cleared, the run has returned and the third item is still \<open>Idle\<close>; but the
  \<open>catch\<close> block returns before it records anything for the second item, which
  keeps status \<open>Processing\<close> and no error message instead of ending in \<open>Error\<close>.
\<close>

theorem auth_rejected_item_stays_processing:
  "(let s = exec [CheckKey True, upload3, ProcessQueue,
                  Iterate 0, Prepared 0 loadedProbe, Generated 0 imageResponse,
                  Iterate 0, Prepared 0 loadedProbe, Generated 0 authFailure] initial
    in map id_q (queue s) = [''a'', ''b'', ''c'']
       \<and> map status (queue s) = [Success, Processing, Idle]
       \<and> map errorMsg (queue s) = [None, None, None]
       \<and> \<not> hasKey s \<and> \<not> isProcessing s
       \<and> map pc (runs s) = [Returned])"
  by (simp add: trace_defs)

text \<open>
  Claim C2.  Two files are uploaded and \<open>cancelProcessing\<close> is called while the
  first request is in flight.  The loop never reads the active flag: when the request
  completes, the flag is clear and the run goes on to mark the second item
  \<open>Processing\<close> all the same.
\<close>

theorem cancelled_run_starts_next_item:
  "(let s = exec [upload2, ProcessQueue, Iterate 0, Prepared 0 loadedProbe,
                  CancelProcessing, Generated 0 imageResponse] initial
    in \<not> isProcessing s
       \<and> map status (queue s) = [Success, Idle]
       \<and> map status (queue (step (Iterate 0) s)) = [Success, Processing]
       \<and> map pc (runs (step (Iterate 0) s)) =
           [AwaitPrepare \<lparr>id_q = ''b'', file_q = png, previewUrl = ''blob:b'', status = Idle,
                          resultUrl = None, customPrompt = None, errorMsg = None\<rparr>])"
  by (simp add: trace_defs)

text \<open>
  Claim C4.  The item left in \<open>Processing\<close> by a rejected key stays so; the next
  run marks the second item, and the queue holds two items with status
  \<open>Processing\<close>.
\<close>

theorem two_items_processing:
  "(let s = exec [upload2, ProcessQueue, Iterate 0, Prepared 0 loadedProbe, Generated 0 authFailure,
                  CheckKey True, ProcessQueue, Iterate 1] initial
    in map id_q (queue s) = [''a'', ''b'']
       \<and> map status (queue s) = [Processing, Processing]
       \<and> length (filter (\<lambda>item. status item = Processing) (queue s)) = 2)"
  by (simp add: trace_defs)

text \<open>
  Claim C5.  A run is cancelled while its first request is in flight and a second
  run is started; the second run completes the second item.  The first run, which
  goes on iterating, then marks that item again: it is \<open>Processing\<close> and still holds
  the result of the second run.
\<close>

theorem result_kept_on_reprocessing:
  "(let s = exec [upload2, ProcessQueue, Iterate 0, Prepared 0 loadedProbe,
                  CancelProcessing, ProcessQueue,
                  Iterate 1, Prepared 1 loadedProbe, Generated 1 imageResponse, Iterate 1,
                  Generated 0 imageResponse, Iterate 0] initial
    in map id_q (queue s) = [''a'', ''b'']
       \<and> map status (queue s) = [Success, Processing]
       \<and> map resultUrl (queue s) =
            [Some ''data:image/png;base64,QUJD'', Some ''data:image/png;base64,QUJD''])"
  by (simp add: trace_defs)

end
